theory Spec2Isabelle
  imports Complex_Main
begin

section \<open>Audio segments and durations\<close>

text \<open>
  A pydub \<open>AudioSegment\<close> is modelled as the list of its one-millisecond frames: \<open>len(c)\<close>
  is the length of the list, \<open>a + b\<close> is list concatenation and \<open>c[s:e]\<close> is a slice in
  milliseconds. Python floats are idealised as exact rationals, so \<open>len(c) / 1000.0\<close> is
  the exact quotient and rounding is not modelled.
\<close>

definition dur_s :: "'a list \<Rightarrow> rat" where
  "dur_s c = of_nat (length c) / 1000"

section \<open>Phase A: the merge loops of \<open>split_by_silence_and_chunk\<close>\<close>

text \<open>
  \<open>main.py\<close> and \<open>utils.py\<close> each define \<open>split_by_silence_and_chunk\<close>, with the same
  loops; \<open>process_csv\<close> calls the one of \<open>main.py\<close>.

  The inner loop \<open>while j < len(chunks) and len(merged)/1000.0 < min_chunk_s\<close>; it returns
  the final values of \<open>j\<close> and \<open>merged\<close>. A loop that does not return is \<open>None\<close>.
\<close>

partial_function (option) merge_inner ::
  "'a list list \<Rightarrow> rat \<Rightarrow> nat \<Rightarrow> 'a list \<Rightarrow> (nat \<times> 'a list) option" where
  "merge_inner chunks min_chunk_s j merged =
     (if j < length chunks \<and> dur_s merged < min_chunk_s
      then merge_inner chunks min_chunk_s (j + 1) (merged @ chunks ! j)
      else Some (j, merged))"

text \<open>The outer loop \<open>while i < len(chunks)\<close>, with the list \<open>final_chunks\<close> built so far.\<close>

partial_function (option) merge_loop ::
  "'a list list \<Rightarrow> rat \<Rightarrow> nat \<Rightarrow> 'a list list \<Rightarrow> 'a list list option" where
  "merge_loop chunks min_chunk_s i final_chunks =
     (if i < length chunks then
        (let current = chunks ! i in
         if dur_s current \<ge> min_chunk_s
         then merge_loop chunks min_chunk_s (i + 1) (final_chunks @ [current])
         else (case merge_inner chunks min_chunk_s (i + 1) current of
                 None \<Rightarrow> None
               | Some (j, merged) \<Rightarrow>
                   merge_loop chunks min_chunk_s j (final_chunks @ [merged])))
      else Some final_chunks)"

section \<open>Phase B: the split loops\<close>

text \<open>Python's \<open>int(x)\<close> on a float truncates towards zero.\<close>

definition py_int :: "rat \<Rightarrow> int" where
  "py_int x = (if x \<ge> 0 then \<lfloor>x\<rfloor> else \<lceil>x\<rceil>)"

text \<open>
  The slice \<open>c[start:end]\<close> of pydub, in milliseconds: both bounds are capped at \<open>len(c)\<close>, a
  negative bound counts from the end (\<open>_parse_position\<close>), and the sample buffer is then
  sliced as any Python sequence is. On the path where the split loop returns, the bounds
  satisfy \<open>0 \<le> start < len(c)\<close> and \<open>start < end\<close>.
\<close>

definition parse_position :: "'a list \<Rightarrow> int \<Rightarrow> int" where
  "parse_position seg val = (if val < 0 then int (length seg) - \<bar>val\<bar> else val)"

definition py_index :: "'a list \<Rightarrow> int \<Rightarrow> nat" where
  "py_index xs k =
     (if k < 0 then nat (max 0 (int (length xs) + k)) else nat (min k (int (length xs))))"

definition getslice :: "'a list \<Rightarrow> int \<Rightarrow> int \<Rightarrow> 'a list" where
  "getslice seg start stop =
     (let s = py_index seg (parse_position seg (min start (int (length seg))));
          e = py_index seg (parse_position seg (min stop (int (length seg))))
      in take (e - s) (drop s seg))"

text \<open>
  The loop \<open>while start < len(c)\<close>, appending \<open>c[start:start + max_ms]\<close> to \<open>processed\<close>
  and advancing \<open>start\<close> by \<open>max_ms\<close>.
\<close>

partial_function (option) split_loop ::
  "'a list \<Rightarrow> int \<Rightarrow> int \<Rightarrow> 'a list list \<Rightarrow> 'a list list option" where
  "split_loop c max_ms start processed =
     (if start < int (length c)
      then split_loop c max_ms (start + max_ms) (processed @ [getslice c start (start + max_ms)])
      else Some processed)"

text \<open>The body of \<open>for c in final_chunks\<close>, and the \<open>for\<close> loop itself.\<close>

definition split_chunk :: "int \<Rightarrow> 'a list \<Rightarrow> 'a list list \<Rightarrow> 'a list list option" where
  "split_chunk max_ms c processed =
     (if int (length c) \<le> max_ms then Some (processed @ [c])
      else split_loop c max_ms 0 processed)"

fun split_all :: "int \<Rightarrow> 'a list list \<Rightarrow> 'a list list \<Rightarrow> 'a list list option" where
  "split_all max_ms [] processed = Some processed"
| "split_all max_ms (c # cs) processed =
     (case split_chunk max_ms c processed of
        None \<Rightarrow> None
      | Some processed' \<Rightarrow> split_all max_ms cs processed')"

section \<open>The normalizer and the whole function\<close>

text \<open>
  Lines 40 to 70: Phase A on \<open>chunks\<close>, then Phase B with \<open>max_ms = int(max_chunk_s * 1000)\<close>.
  The product is taken exactly here. The code rounds it to a binary64 float before \<open>int\<close>
  truncates it, which can lose one millisecond: \<open>int(4.02 * 1000)\<close> is 4019 and
  \<open>int(1.001 * 1000)\<close> is 1000. At 3.0, 5.0 and 8.0 the product is exact. Where the float
  product overflows, or \<open>max_chunk_s\<close> is \<open>inf\<close> or \<open>nan\<close>, \<open>int\<close> raises; a rational
  \<open>max_chunk_s\<close> is finite, and the overflow is not modelled. The loops of Phase B
  themselves, \<open>split_chunk\<close> and \<open>split_all\<close>, take the integer step as it was computed.
\<close>

definition normalize_chunks :: "rat \<Rightarrow> rat \<Rightarrow> 'a list list \<Rightarrow> 'a list list option" where
  "normalize_chunks min_chunk_s max_chunk_s chunks =
     (case merge_loop chunks min_chunk_s 0 [] of
        None \<Rightarrow> None
      | Some final_chunks \<Rightarrow> split_all (py_int (max_chunk_s * 1000)) final_chunks [])"

text \<open>
  The export loop numbers the processed chunks from 1; a written file is modelled as the
  pair of its index and its audio.
\<close>

definition export_chunks :: "'a list list \<Rightarrow> (nat \<times> 'a list) list" where
  "export_chunks processed = enumerate 1 processed"

text \<open>
  \<open>split_by_silence_and_chunk\<close> from line 37 on. pydub's \<open>AudioSegment.from_wav\<close> and
  \<open>silence.split_on_silence\<close> are library calls; their result \<open>raw_chunks\<close>, a list of
  slices of the waveform, is the input here.
\<close>

definition split_by_silence_and_chunk ::
  "'a list list \<Rightarrow> rat \<Rightarrow> rat \<Rightarrow> (nat \<times> 'a list) list option" where
  "split_by_silence_and_chunk raw_chunks min_chunk_s max_chunk_s =
     (let chunks = filter (\<lambda>c. length c > 0) raw_chunks
      in map_option export_chunks (normalize_chunks min_chunk_s max_chunk_s chunks))"

section \<open>The batch driver \<open>process_csv\<close>\<close>

text \<open>
  An exception derived from Python's \<open>Exception\<close>, with its message. \<open>process_csv\<close> raises
  a \<open>ValueError\<close> itself; everything else is raised by the steps it calls.
\<close>

datatype py_exception = ValueError string | OtherException string

text \<open>What \<open>process_csv\<close> prints.\<close>

datatype log_line =
    Processing string
  | Exported nat string
  | ErrorFor string py_exception

text \<open>
  The steps that \<open>process_csv\<close> calls act on the network and the file system, which is the
  state \<open>'w\<close> threaded through them; each returns normally or raises. \<open>segment\<close> is
  \<open>split_by_silence_and_chunk\<close> applied to a WAV path and an output directory with the
  options of the command line, returning the exported paths. \<open>join\<close>, \<open>splitext_root\<close> and
  \<open>stem\<close> are \<open>os.path.join\<close>, \<open>os.path.splitext(p)[0]\<close> and \<open>Path(p).stem\<close>.
\<close>

record 'w env =
  download_audio :: "string \<Rightarrow> string \<Rightarrow> 'w \<Rightarrow> (py_exception + string) \<times> 'w"
  path_exists :: "string \<Rightarrow> 'w \<Rightarrow> bool"
  convert_to_wav :: "string \<Rightarrow> string \<Rightarrow> 'w \<Rightarrow> (py_exception + string) \<times> 'w"
  segment :: "string \<Rightarrow> string \<Rightarrow> 'w \<Rightarrow> (py_exception + string list) \<times> 'w"
  join :: "string \<Rightarrow> string \<Rightarrow> string"
  splitext_root :: "string \<Rightarrow> string"
  stem :: "string \<Rightarrow> string"

text \<open>
  The body of the \<open>try\<close> for one URL: the exception that ended it, or the number of
  exported chunks and the output directory.
\<close>

definition process_url ::
  "'w env \<Rightarrow> string \<Rightarrow> string \<Rightarrow> string \<Rightarrow> 'w \<Rightarrow> (py_exception + nat \<times> string) \<times> 'w" where
  "process_url E tmp_dir out_root url w =
     (let download_folder = join E tmp_dir ''downloads'' in
      case download_audio E url download_folder w of
        (Inl e, w1) \<Rightarrow> (Inl e, w1)
      | (Inr downloaded, w1) \<Rightarrow>
          (let wav_out = splitext_root E downloaded @ ''.wav'' in
           case (if \<not> path_exists E wav_out w1 then convert_to_wav E downloaded wav_out w1
                 else (Inr wav_out, w1)) of
             (Inl e, w2) \<Rightarrow> (Inl e, w2)
           | (Inr wav_out, w2) \<Rightarrow>
               (let safe_name = stem E wav_out;
                    out_dir = join E out_root safe_name in
                case segment E wav_out out_dir w2 of
                  (Inl e, w3) \<Rightarrow> (Inl e, w3)
                | (Inr exported, w3) \<Rightarrow> (Inr (length exported, out_dir), w3))))"

text \<open>The \<open>for\<close> loop over the URLs with its \<open>try\<close> and \<open>except Exception\<close>.\<close>

fun process_urls ::
  "'w env \<Rightarrow> string \<Rightarrow> string \<Rightarrow> string list \<Rightarrow> 'w \<Rightarrow> log_line list \<Rightarrow> log_line list \<times> 'w"
  where
  "process_urls E tmp_dir out_root [] w printed = (printed, w)"
| "process_urls E tmp_dir out_root (url # urls) w printed =
     (case process_url E tmp_dir out_root url w of
        (Inr (n, out_dir), w') \<Rightarrow>
          process_urls E tmp_dir out_root urls w' (printed @ [Processing url, Exported n out_dir])
      | (Inl e, w') \<Rightarrow>
          process_urls E tmp_dir out_root urls w' (printed @ [Processing url, ErrorFor url e]))"

text \<open>
  \<open>dropna\<close> drops the missing cells of a column, \<open>unique\<close> keeps the first occurrence of
  each value, in order of appearance.
\<close>

definition dropna :: "'a option list \<Rightarrow> 'a list" where
  "dropna col = concat (map (\<lambda>x. case x of None \<Rightarrow> [] | Some u \<Rightarrow> [u]) col)"

fun unique :: "'a list \<Rightarrow> 'a list" where
  "unique [] = []"
| "unique (x # xs) = x # unique (filter (\<lambda>y. y \<noteq> x) xs)"

text \<open>
  \<open>process_csv\<close> on the data frame read from the CSV file: its columns by name, a missing
  cell being \<open>None\<close>.
\<close>

definition process_csv ::
  "'w env \<Rightarrow> (string \<times> string option list) list \<Rightarrow> string \<Rightarrow> string \<Rightarrow> 'w
     \<Rightarrow> (py_exception + log_line list) \<times> 'w" where
  "process_csv E df tmp_dir out_root w =
     (case map_of df ''url'' of
        None \<Rightarrow> (Inl (ValueError ''CSV must have 'url' column''), w)
      | Some col \<Rightarrow>
          (case process_urls E tmp_dir out_root (unique (dropna col)) w [] of
             (printed, w') \<Rightarrow> (Inr printed, w')))"

text \<open>The outcome line that a URL's \<open>Processing\<close> line is followed by.\<close>

fun outcome_of :: "string \<Rightarrow> log_line \<Rightarrow> bool" where
  "outcome_of url (Processing u) = False"
| "outcome_of url (Exported n out_dir) = True"
| "outcome_of url (ErrorFor u e) = (u = url)"

section \<open>Closed forms of the loops\<close>

text \<open>
  How many of the segments \<open>xs\<close> the inner loop appends to an undersized \<open>merged\<close>: it stops
  at the first point where the accumulated duration has reached the minimum.
\<close>

fun absorb_count :: "rat \<Rightarrow> 'a list \<Rightarrow> 'a list list \<Rightarrow> nat" where
  "absorb_count m merged [] = 0"
| "absorb_count m merged (x # xs) =
     (if dur_s merged < m then Suc (absorb_count m (merged @ x) xs) else 0)"

text \<open>Phase A as a recursion over the list of segments that are left.\<close>

fun merge_fwd :: "rat \<Rightarrow> 'a list list \<Rightarrow> 'a list list" where
  "merge_fwd m [] = []"
| "merge_fwd m (c # cs) =
     (if dur_s c \<ge> m then c # merge_fwd m cs
      else (c @ concat (take (absorb_count m c cs) cs))
             # merge_fwd m (drop (absorb_count m c cs) cs))"

text \<open>The pieces of a chunk cut every \<open>M\<close> milliseconds, for a step \<open>M\<close> of at least 1.\<close>

fun chop :: "nat \<Rightarrow> 'a list \<Rightarrow> 'a list list" where
  "chop M c = (if M = 0 \<or> c = [] then [] else take M c # chop M (drop M c))"

declare chop.simps [simp del]

text \<open>What Phase B appends for one chunk when the step is at least 1.\<close>

definition pieces :: "int \<Rightarrow> 'a list \<Rightarrow> 'a list list" where
  "pieces M c = (if int (length c) \<le> M then [c] else chop (nat M) c)"

section \<open>Phase A: the loops compute the closed form\<close>

lemma concat_map_concat: "concat (map concat gs) = concat (concat gs)"
  by (induction gs) simp_all

lemma absorb_count_le: "absorb_count m merged xs \<le> length xs"
  by (induction xs arbitrary: merged) auto

lemma absorb_count_reached:
  "absorb_count m merged xs = length xs
   \<or> m \<le> dur_s (merged @ concat (take (absorb_count m merged xs) xs))"
proof (induction xs arbitrary: merged)
  case Nil
  then show ?case by simp
next
  case (Cons x xs)
  then show ?case using Cons.IH[of "merged @ x"] by auto
qed

lemma absorb_count_before:
  "k < absorb_count m merged xs \<Longrightarrow> dur_s (merged @ concat (take k xs)) < m"
proof (induction xs arbitrary: merged k)
  case Nil
  then show ?case by simp
next
  case (Cons x xs)
  show ?case
  proof (cases k)
    case 0
    then show ?thesis using Cons.prems by (auto split: if_splits)
  next
    case (Suc k')
    then show ?thesis using Cons.prems Cons.IH[of k' "merged @ x"]
      by (auto split: if_splits)
  qed
qed

lemma merge_inner_closed:
  "j \<le> length chunks \<Longrightarrow>
   merge_inner chunks m j merged =
     Some (j + absorb_count m merged (drop j chunks),
           merged @ concat (take (absorb_count m merged (drop j chunks)) (drop j chunks)))"
proof (induction "length chunks - j" arbitrary: j merged)
  case 0
  then show ?case by (subst merge_inner.simps) simp
next
  case (Suc n)
  then have lt: "j < length chunks" by simp
  then have dr: "drop j chunks = chunks ! j # drop (Suc j) chunks"
    by (simp add: Cons_nth_drop_Suc)
  have n: "n = length chunks - Suc j" using Suc.hyps(2) by simp
  show ?case
  proof (cases "dur_s merged < m")
    case True
    have "merge_inner chunks m j merged = merge_inner chunks m (Suc j) (merged @ chunks ! j)"
      using lt True by (subst merge_inner.simps) simp
    also have "\<dots> = Some (Suc j + absorb_count m (merged @ chunks ! j) (drop (Suc j) chunks),
        (merged @ chunks ! j)
          @ concat (take (absorb_count m (merged @ chunks ! j) (drop (Suc j) chunks))
                      (drop (Suc j) chunks)))"
      using Suc.hyps(1)[OF n] lt by simp
    finally show ?thesis using True by (simp add: dr)
  next
    case False
    then show ?thesis by (subst merge_inner.simps) (simp add: dr)
  qed
qed

lemma merge_loop_closed:
  "i \<le> length chunks \<Longrightarrow>
   merge_loop chunks m i acc = Some (acc @ merge_fwd m (drop i chunks))"
proof (induction "length chunks - i" arbitrary: i acc rule: less_induct)
  case less
  show ?case
  proof (cases "i < length chunks")
    case False
    then show ?thesis using less.prems by (subst merge_loop.simps) simp
  next
    case lt: True
    then have dr: "drop i chunks = chunks ! i # drop (Suc i) chunks"
      by (simp add: Cons_nth_drop_Suc)
    show ?thesis
    proof (cases "m \<le> dur_s (chunks ! i)")
      case True
      have "merge_loop chunks m i acc = merge_loop chunks m (Suc i) (acc @ [chunks ! i])"
        using lt True by (subst merge_loop.simps) simp
      also have "\<dots> = Some ((acc @ [chunks ! i]) @ merge_fwd m (drop (Suc i) chunks))"
        using lt by (intro less.hyps) auto
      finally show ?thesis using True by (simp add: dr)
    next
      case False
      define k where "k = absorb_count m (chunks ! i) (drop (Suc i) chunks)"
      define merged where "merged = chunks ! i @ concat (take k (drop (Suc i) chunks))"
      have kle: "Suc i + k \<le> length chunks"
        using absorb_count_le[of m "chunks ! i" "drop (Suc i) chunks"] lt
        by (simp add: k_def)
      have inner: "merge_inner chunks m (Suc i) (chunks ! i) = Some (Suc i + k, merged)"
        using merge_inner_closed[of "Suc i" chunks m "chunks ! i"] lt
        by (simp add: k_def merged_def)
      have "merge_loop chunks m i acc = merge_loop chunks m (Suc i + k) (acc @ [merged])"
        using lt False inner by (subst merge_loop.simps) simp
      also have "\<dots> = Some ((acc @ [merged]) @ merge_fwd m (drop (Suc i + k) chunks))"
        using lt kle by (intro less.hyps) auto
      finally show ?thesis
        using False by (simp add: dr k_def merged_def add.commute)
    qed
  qed
qed

lemma merge_loop_all: "merge_loop chunks m 0 [] = Some (merge_fwd m chunks)"
  using merge_loop_closed[of 0 chunks m "[]"] by simp

lemma merge_fwd_groups:
  "\<exists>gs. concat gs = xs \<and> [] \<notin> set gs \<and> merge_fwd m xs = map concat gs"
proof (induction m xs rule: merge_fwd.induct)
  case (1 m)
  show ?case by (rule exI[of _ "[]"]) simp
next
  case (2 m c cs)
  show ?case
  proof (cases "m \<le> dur_s c")
    case True
    with 2(1) obtain gs where "concat gs = cs" "[] \<notin> set gs" "merge_fwd m cs = map concat gs"
      by blast
    then show ?thesis using True by (intro exI[of _ "[c] # gs"]) simp
  next
    case False
    define k where "k = absorb_count m c cs"
    from 2(2) False obtain gs where
      "concat gs = drop k cs" "[] \<notin> set gs" "merge_fwd m (drop k cs) = map concat gs"
      unfolding k_def by blast
    then show ?thesis using False
      by (intro exI[of _ "(c # take k cs) # gs"]) (simp add: k_def)
  qed
qed





lemma chop_Nil [simp]: "chop M [] = []"
  by (simp add: chop.simps)

lemma chop_Cons: "0 < M \<Longrightarrow> c \<noteq> [] \<Longrightarrow> chop M c = take M c # chop M (drop M c)"
  by (subst chop.simps) simp

lemma concat_chop: "0 < M \<Longrightarrow> concat (chop M c) = c"
proof (induction M c rule: chop.induct)
  case (1 M c)
  then show ?case by (cases "c = []") (simp_all add: chop_Cons)
qed

lemma chop_piece_bounds: "0 < M \<Longrightarrow> p \<in> set (chop M c) \<Longrightarrow> 0 < length p \<and> length p \<le> M"
proof (induction M c rule: chop.induct)
  case (1 M c)
  then show ?case by (cases "c = []") (auto simp: chop_Cons)
qed

lemma chop_butlast_full: "0 < M \<Longrightarrow> p \<in> set (butlast (chop M c)) \<Longrightarrow> length p = M"
proof (induction M c rule: chop.induct)
  case (1 M c)
  show ?case
  proof (cases "c = []")
    case True
    then show ?thesis using 1 by simp
  next
    case False
    show ?thesis
    proof (cases "drop M c = []")
      case True
      then show ?thesis using 1 False by (simp add: chop_Cons)
    next
      case nonempty: False
      then have "chop M (drop M c) \<noteq> []" using 1(2) by (simp add: chop_Cons)
      moreover have "length (take M c) = M" using nonempty by simp
      ultimately show ?thesis using 1 False by (auto simp: chop_Cons)
    qed
  qed
qed

lemma length_chop: "0 < M \<Longrightarrow> length (chop M c) = (length c + M - 1) div M"
proof (induction M c rule: chop.induct)
  case (1 M c)
  show ?case
  proof (cases "c = []")
    case True
    then show ?thesis using 1(2) by simp
  next
    case False
    then have pos: "0 < length c" by simp
    have ih: "length (chop M (drop M c)) = (length (drop M c) + M - 1) div M"
      using 1 False by blast
    have unfold: "length (chop M c) = Suc (length (chop M (drop M c)))"
      using chop_Cons[OF 1(2) False] by simp
    show ?thesis
    proof (cases "M \<le> length c")
      case True
      have "length c + M - 1 = (length c - M + M - 1) + M" using pos True by arith
      moreover have "(x + M) div M = Suc (x div M)" for x
        using 1(2) by simp
      ultimately have "(length c + M - 1) div M = Suc ((length c - M + M - 1) div M)"
        by (simp only:)
      then show ?thesis using unfold ih by (simp only: length_drop)
    next
      case short: False
      have "(length c + M - 1) div M = 1"
        by (rule div_nat_eqI) (use pos short in arith)+
      moreover have "drop M c = []" using short by simp
      ultimately show ?thesis using unfold by simp
    qed
  qed
qed

lemma getslice_forward:
  assumes "0 \<le> start" "start \<le> stop"
  shows "getslice c start stop = take (nat (stop - start)) (drop (nat start) c)"
proof (cases "start \<le> int (length c)")
  case True
  then show ?thesis using assms
    by (auto simp: getslice_def parse_position_def py_index_def Let_def min_def nat_diff_distrib)
next
  case False
  then show ?thesis using assms
    by (auto simp: getslice_def parse_position_def py_index_def Let_def min_def)
qed

lemma split_loop_closed:
  "1 \<le> M \<Longrightarrow> 0 \<le> start \<Longrightarrow>
   split_loop c M start acc = Some (acc @ chop (nat M) (drop (nat start) c))"
proof (induction "length c - nat start" arbitrary: start acc rule: less_induct)
  case less
  show ?case
  proof (cases "start < int (length c)")
    case False
    then show ?thesis using less.prems by (subst split_loop.simps) simp
  next
    case True
    then have ne: "drop (nat start) c \<noteq> []" using less.prems by simp
    have sl: "getslice c start (start + M) = take (nat M) (drop (nat start) c)"
      using less.prems by (simp add: getslice_forward)
    have "split_loop c M start acc
            = split_loop c M (start + M) (acc @ [take (nat M) (drop (nat start) c)])"
      using True sl by (subst split_loop.simps) simp
    also have "\<dots> = Some ((acc @ [take (nat M) (drop (nat start) c)])
                          @ chop (nat M) (drop (nat (start + M)) c))"
      using True less.prems by (intro less.hyps) auto
    also have "drop (nat (start + M)) c = drop (nat M) (drop (nat start) c)"
      using less.prems by (simp add: nat_add_distrib add.commute)
    finally show ?thesis using ne less.prems by (simp add: chop_Cons)
  qed
qed

text \<open>With a step of zero or less the loop never leaves a chunk it has entered.\<close>

lemma split_loop_stuck:
  assumes "split_loop c M start acc = Some out" "M \<le> 0" "start \<le> 0"
  shows "int (length c) \<le> start \<and> out = acc"
proof -
  have "M \<le> 0 \<longrightarrow> start \<le> 0 \<longrightarrow> int (length c) \<le> start \<and> out = acc"
  proof (rule split_loop.raw_induct
      [where P = "\<lambda>c M start acc out.
                    M \<le> 0 \<longrightarrow> start \<le> 0 \<longrightarrow> int (length c) \<le> start \<and> out = acc",
        OF _ assms(1)])
    fix f :: "'a list \<Rightarrow> int \<Rightarrow> int \<Rightarrow> 'a list list \<Rightarrow> 'a list list option"
      and c M start acc out
    assume ih: "\<And>c M start acc out. f c M start acc = Some out
                  \<Longrightarrow> M \<le> 0 \<longrightarrow> start \<le> 0 \<longrightarrow> int (length c) \<le> start \<and> out = acc"
      and step: "(if start < int (length c)
                  then f c M (start + M) (acc @ [getslice c start (start + M)])
                  else Some acc) = Some out"
    show "M \<le> 0 \<longrightarrow> start \<le> 0 \<longrightarrow> int (length c) \<le> start \<and> out = acc"
    proof (intro impI)
      assume M: "M \<le> 0" and s: "start \<le> 0"
      show "int (length c) \<le> start \<and> out = acc"
      proof (cases "start < int (length c)")
        case True
        then have "f c M (start + M) (acc @ [getslice c start (start + M)]) = Some out"
          using step by simp
        from ih[OF this] have "int (length c) \<le> start + M" using M s by simp
        then show ?thesis using True M by simp
      next
        case False
        then show ?thesis using step by simp
      qed
    qed
  qed
  then show ?thesis using assms by simp
qed


lemma split_chunk_closed: "1 \<le> M \<Longrightarrow> split_chunk M c acc = Some (acc @ pieces M c)"
  by (simp add: split_chunk_def pieces_def split_loop_closed)

lemma split_chunk_stuck:
  assumes "split_chunk M c acc = Some out" "M \<le> 0"
  shows "c = [] \<and> out = acc @ (if M = 0 then [[]] else [])"
proof (cases "int (length c) \<le> M")
  case True
  then have "length c = 0" "M = 0" using assms(2) by linarith+
  then show ?thesis using assms(1) by (simp add: split_chunk_def)
next
  case False
  then have "split_loop c M 0 acc = Some out" using assms(1) by (simp add: split_chunk_def)
  from split_loop_stuck[OF this assms(2)] have "c = []" "out = acc" by simp_all
  then show ?thesis using False by auto
qed

lemma split_chunk_diverges: "M \<le> 0 \<Longrightarrow> c \<noteq> [] \<Longrightarrow> split_chunk M c acc = None"
proof (cases "split_chunk M c acc")
  case (Some out)
  assume "M \<le> 0" "c \<noteq> []"
  then show ?thesis using split_chunk_stuck[OF Some] by simp
qed simp

lemma split_chunk_acc:
  "split_chunk M c acc = map_option ((@) acc) (split_chunk M c [])"
proof (cases "1 \<le> M")
  case True
  then show ?thesis by (simp add: split_chunk_closed)
next
  case False
  then have M: "M \<le> 0" by simp
  show ?thesis
  proof (cases "c = []")
    case True
    have "split_loop [] M 0 acc = Some acc" for acc :: "'a list list"
      by (subst split_loop.simps) simp
    then show ?thesis using True by (simp add: split_chunk_def)
  next
    case False
    have "split_chunk M c a = None" for a
    proof (cases "split_chunk M c a")
      case (Some out)
      then show ?thesis using split_chunk_stuck[OF Some M] False by simp
    qed simp
    then show ?thesis by simp
  qed
qed

lemma split_all_closed:
  "1 \<le> M \<Longrightarrow> split_all M cs acc = Some (acc @ concat (map (pieces M) cs))"
  by (induction cs arbitrary: acc) (simp_all add: split_chunk_closed)

lemma split_all_groups:
  "split_all M cs acc = Some out \<Longrightarrow>
   \<exists>pss. list_all2 (\<lambda>c ps. split_chunk M c [] = Some ps) cs pss \<and> out = acc @ concat pss"
proof (induction cs arbitrary: acc)
  case Nil
  then show ?case by simp
next
  case (Cons c cs)
  from Cons.prems obtain acc' where
    c: "split_chunk M c acc = Some acc'" and rest: "split_all M cs acc' = Some out"
    by (auto split: option.splits)
  from c obtain ps where ps: "split_chunk M c [] = Some ps" and acc': "acc' = acc @ ps"
    using split_chunk_acc[of M c acc] by (cases "split_chunk M c []") auto
  from Cons.IH[OF rest] obtain pss where
    pss: "list_all2 (\<lambda>c ps. split_chunk M c [] = Some ps) cs pss" and out: "out = acc' @ concat pss"
    by blast
  have "list_all2 (\<lambda>c ps. split_chunk M c [] = Some ps) (c # cs) (ps # pss)"
    using ps pss by simp
  moreover have "out = acc @ concat (ps # pss)" using out acc' by simp
  ultimately show ?case by blast
qed

lemma split_all_unsplit:
  "\<forall>c\<in>set cs. int (length c) \<le> M \<Longrightarrow> split_all M cs acc = Some (acc @ cs)"
  by (induction cs arbitrary: acc) (simp_all add: split_chunk_def)

lemma pieces_concat: "1 \<le> M \<Longrightarrow> concat (pieces M c) = c"
  by (simp add: pieces_def concat_chop)


section \<open>Truncation and durations\<close>

lemma py_int_nonneg: "0 \<le> x \<Longrightarrow> py_int x = \<lfloor>x\<rfloor>"
  by (simp add: py_int_def)

lemma py_int_pos: "1 \<le> py_int x \<Longrightarrow> 0 \<le> x"
proof (rule ccontr)
  assume a: "1 \<le> py_int x" and "\<not> 0 \<le> x"
  then have "x < 0" by simp
  then have "\<lceil>x\<rceil> \<le> 0" by (simp add: ceiling_le_zero)
  then show False using a \<open>x < 0\<close> by (simp add: py_int_def)
qed


lemma dur_s_nonneg: "0 \<le> dur_s c"
  by (simp add: dur_s_def)

lemma merge_fwd_unchanged: "\<forall>c\<in>set chunks. m \<le> dur_s c \<Longrightarrow> merge_fwd m chunks = chunks"
  by (induction chunks) simp_all

text \<open>
  Both phases leave a sequence as it is when every chunk lasts at least \<open>min_chunk_s\<close> and
  is at most \<open>max_ms\<close> milliseconds long, for the integer step \<open>max_ms\<close> that was computed.
\<close>

lemma unchanged_within_step:
  assumes "\<forall>c\<in>set chunks. m \<le> dur_s c \<and> int (length c) \<le> M"
  shows "merge_loop chunks m 0 [] = Some chunks \<and> split_all M chunks [] = Some chunks"
  using assms by (simp add: merge_loop_all merge_fwd_unchanged split_all_unsplit)

section \<open>The batch driver visits every URL\<close>

lemma process_urls_log:
  "\<exists>outcomes w'.
     process_urls E tmp_dir out_root urls w printed
       = (printed @ concat (map2 (\<lambda>u l. [Processing u, l]) urls outcomes), w')
     \<and> list_all2 outcome_of urls outcomes"
proof (induction urls arbitrary: w printed)
  case Nil
  show ?case by simp
next
  case (Cons url urls)
  obtain r w1 where r: "process_url E tmp_dir out_root url w = (r, w1)"
    by (cases "process_url E tmp_dir out_root url w")
  define l where "l = (case r of Inr (n, out_dir) \<Rightarrow> Exported n out_dir | Inl e \<Rightarrow> ErrorFor url e)"
  have step: "process_urls E tmp_dir out_root (url # urls) w printed
                = process_urls E tmp_dir out_root urls w1 (printed @ [Processing url, l])"
    using r by (auto simp: l_def split: sum.splits)
  have l: "outcome_of url l" by (auto simp: l_def split: sum.splits)
  from Cons.IH[of w1 "printed @ [Processing url, l]"] obtain outcomes w' where
    ih: "process_urls E tmp_dir out_root urls w1 (printed @ [Processing url, l])
           = ((printed @ [Processing url, l])
                @ concat (map2 (\<lambda>u l. [Processing u, l]) urls outcomes), w')"
    and outs: "list_all2 outcome_of urls outcomes"
    by blast
  have "process_urls E tmp_dir out_root (url # urls) w printed
          = (printed @ concat (map2 (\<lambda>u l. [Processing u, l]) (url # urls) (l # outcomes)), w')"
    using step ih by simp
  moreover have "list_all2 outcome_of (url # urls) (l # outcomes)" using l outs by simp
  ultimately show ?case by blast
qed


section \<open>The claims\<close>

text \<open>
  Claim C1 (Phase A, merge-forward). Phase A walks the segments from left to right. On no
  segments it emits nothing. A first segment \<open>c\<close> whose duration is at least \<open>min_chunk_s\<close>
  is emitted as it is, followed by Phase A of the rest. An undersized first segment \<open>u\<close>
  absorbs the next \<open>k\<close> segments, where \<open>k\<close> is the first point at which the accumulated
  duration reaches \<open>min_chunk_s\<close>, or all of them if it never does; the merged chunk is
  emitted, followed by Phase A of what is left after those \<open>k\<close>. Segments of
  1.0 s, 1.0 s and 1.5 s with \<open>min_chunk_s = 3.0\<close> give exactly one chunk, their
  concatenation, of 3.5 s.
\<close>

theorem C1_merge_forward:
  "merge_loop [] m 0 [] = Some []
   \<and> (m \<le> dur_s c \<longrightarrow>
        merge_loop (c # cs) m 0 [] = map_option ((#) c) (merge_loop cs m 0 []))
   \<and> (dur_s u < m \<longrightarrow>
        (\<exists>k\<le>length us.
           merge_loop (u # us) m 0 []
             = map_option ((#) (u @ concat (take k us))) (merge_loop (drop k us) m 0 [])
           \<and> (k = length us \<or> m \<le> dur_s (u @ concat (take k us)))
           \<and> (\<forall>k'<k. dur_s (u @ concat (take k' us)) < m)))
   \<and> (length x = 1000 \<and> length y = 1000 \<and> length z = 1500 \<longrightarrow>
        merge_loop [x, y, z] 3 0 [] = Some [x @ y @ z] \<and> dur_s (x @ y @ z) = 3.5)"
proof (intro conjI impI)
  show "merge_loop [] m 0 [] = Some []" by (simp add: merge_loop_all)
next
  assume "m \<le> dur_s c"
  then show "merge_loop (c # cs) m 0 [] = map_option ((#) c) (merge_loop cs m 0 [])"
    by (simp add: merge_loop_all)
next
  assume u: "dur_s u < m"
  define k where "k = absorb_count m u us"
  have "k \<le> length us" by (simp add: k_def absorb_count_le)
  moreover have "merge_loop (u # us) m 0 []
             = map_option ((#) (u @ concat (take k us))) (merge_loop (drop k us) m 0 [])"
    using u by (simp add: merge_loop_all k_def)
  moreover have "k = length us \<or> m \<le> dur_s (u @ concat (take k us))"
    unfolding k_def by (rule absorb_count_reached)
  moreover have "\<forall>k'<k. dur_s (u @ concat (take k' us)) < m"
    unfolding k_def by (blast intro: absorb_count_before)
  ultimately show "\<exists>k\<le>length us.
           merge_loop (u # us) m 0 []
             = map_option ((#) (u @ concat (take k us))) (merge_loop (drop k us) m 0 [])
           \<and> (k = length us \<or> m \<le> dur_s (u @ concat (take k us)))
           \<and> (\<forall>k'<k. dur_s (u @ concat (take k' us)) < m)"
    by blast
next
  assume len: "length x = 1000 \<and> length y = 1000 \<and> length z = 1500"
  then show "merge_loop [x, y, z] 3 0 [] = Some [x @ y @ z]"
    by (simp add: merge_loop_all dur_s_def)
  show "dur_s (x @ y @ z) = 3.5" using len by (simp add: dur_s_def)
qed

theorem C1_merge_forward_witness:
  "merge_loop [replicate 3000 (0::int), replicate 1000 0] 3 0 []
     = Some [replicate 3000 0, replicate 1000 0]
   \<and> merge_loop [replicate 1000 (0::int), replicate 1000 0, replicate 1500 0] 3 0 []
     = Some [replicate 1000 0 @ replicate 1000 0 @ replicate 1500 0]
   \<and> dur_s (replicate 1000 (0::int) @ replicate 1000 0 @ replicate 1500 0) = 3.5"
  using C1_merge_forward [of 3 "replicate 3000 (0::int)" "[replicate 1000 0]"
      "replicate 1000 0" "[replicate 1000 0]"
      "replicate 1000 0" "replicate 1000 0" "replicate 1500 0"]
  by (simp add: dur_s_def merge_loop_all)

text \<open>
  Claim C7 (single pass, conservation, trailing residue). The output of Phase A is the
  input cut into consecutive non-empty groups of segments, each group emitted as the
  concatenation of its segments: every segment is used exactly once and in order, so the
  concatenation of the outputs is the concatenation of the inputs. An undersized last
  segment \<open>c\<close> is not dropped: Phase A returns a non-empty list whose last chunk ends
  with \<open>c\<close>.
\<close>

theorem C7_single_pass:
  "(\<exists>gs. concat gs = chunks \<and> [] \<notin> set gs
         \<and> merge_loop chunks m 0 [] = Some (map concat gs)
         \<and> concat (map concat gs) = concat chunks)
   \<and> (dur_s c < m \<longrightarrow> merge_loop (chunks @ [c]) m 0 [] \<noteq> None
        \<and> (\<exists>out t. merge_loop (chunks @ [c]) m 0 [] = Some out \<and> out \<noteq> [] \<and> last out = t @ c))"
proof -
  from merge_fwd_groups[of chunks m]
  obtain gs where gs: "concat gs = chunks" "[] \<notin> set gs" "merge_fwd m chunks = map concat gs"
    by blast
  have first: "\<exists>gs. concat gs = chunks \<and> [] \<notin> set gs
         \<and> merge_loop chunks m 0 [] = Some (map concat gs)
         \<and> concat (map concat gs) = concat chunks"
    using gs by (intro exI[of _ gs]) (simp add: merge_loop_all concat_map_concat)
  have second: "merge_loop (chunks @ [c]) m 0 [] \<noteq> None
        \<and> (\<exists>out t. merge_loop (chunks @ [c]) m 0 [] = Some out \<and> out \<noteq> [] \<and> last out = t @ c)"
  proof -
    from merge_fwd_groups[of "chunks @ [c]" m] obtain hs where hs: "concat hs = chunks @ [c]" "[] \<notin> set hs"
      "merge_fwd m (chunks @ [c]) = map concat hs" by blast
    then have ne: "hs \<noteq> []" by auto
    then have "last hs \<noteq> []" using hs(2) by (metis last_in_set)
    have "concat hs = concat (butlast hs) @ last hs"
      using ne by (metis append_butlast_last_id concat.simps(1) concat.simps(2) concat_append self_append_conv)
    then have "concat (butlast hs) @ last hs = chunks @ [c]" using hs(1) by simp
    then have "last (last hs) = c" using \<open>last hs \<noteq> []\<close>
      by (metis last_appendR last_snoc)
    then have "concat (last hs) = concat (butlast (last hs)) @ c"
      using \<open>last hs \<noteq> []\<close>
      by (metis append_butlast_last_id concat.simps(1) concat.simps(2) concat_append self_append_conv)
    moreover have "last (map concat hs) = concat (last hs)" using ne by (simp add: last_map)
    ultimately show ?thesis using ne hs(3)
      by (simp add: merge_loop_all)
  qed
  show ?thesis using first second by blast
qed

theorem C7_single_pass_witness:
  "dur_s (replicate 1000 (0::int)) < 3
   \<and> merge_loop ([replicate 3000 0] @ [replicate 1000 (0::int)]) 3 0 [] \<noteq> None"
  using C7_single_pass [of "[replicate 3000 (0::int)]" 3 "replicate 1000 0"]
  by (simp add: dur_s_def)

text \<open>
  Claim C5 (the split is lossless). Whenever Phase B returns the pieces of a chunk, their
  concatenation in order is that chunk, and with a step of at least one millisecond it
  does return them. For a whole list of Phase-A chunks the output of Phase B is, in order,
  the pieces of the first chunk, then those of the second, and so on, and concatenating
  the pieces of each chunk gives back the list of Phase-A chunks.
\<close>

theorem C5_split_lossless:
  "(split_chunk max_ms c [] = Some ps \<longrightarrow> concat ps = c)
   \<and> (1 \<le> max_ms \<longrightarrow> (\<exists>qs. split_chunk max_ms c [] = Some qs \<and> concat qs = c))
   \<and> (split_all max_ms final_chunks [] = Some processed \<longrightarrow>
        (\<exists>pss. list_all2 (\<lambda>c ps. split_chunk max_ms c [] = Some ps) final_chunks pss
               \<and> processed = concat pss \<and> map concat pss = final_chunks))"
proof -
  have one: "concat qs = d" if "split_chunk max_ms d [] = Some qs" for d qs
  proof (cases "1 \<le> max_ms")
    case True
    then show ?thesis using that by (auto simp: split_chunk_closed pieces_concat)
  next
    case False
    then have "max_ms \<le> 0" by simp
    from split_chunk_stuck[OF that this] show ?thesis by auto
  qed
  have two: "\<exists>qs. split_chunk max_ms c [] = Some qs \<and> concat qs = c" if "1 \<le> max_ms"
    using that by (simp add: split_chunk_closed pieces_concat)
  have three: "\<exists>pss. list_all2 (\<lambda>c ps. split_chunk max_ms c [] = Some ps) final_chunks pss
               \<and> processed = concat pss \<and> map concat pss = final_chunks"
    if "split_all max_ms final_chunks [] = Some processed"
  proof -
    from split_all_groups[OF that] obtain pss where
      pss: "list_all2 (\<lambda>c ps. split_chunk max_ms c [] = Some ps) final_chunks pss"
      and out: "processed = concat pss" by auto
    from pss have "map concat pss = final_chunks"
      by (induction rule: list_all2_induct) (simp_all add: one)
    then show ?thesis using pss out by blast
  qed
  show ?thesis using one two three by blast
qed

theorem C5_split_lossless_witness:
  "split_chunk 2 [1, 2, 3, 4, 5 :: int] [] = Some [[1, 2], [3, 4], [5]]
   \<and> concat [[1, 2], [3, 4], [5]] = [1, 2, 3, 4, 5 :: int]
   \<and> split_all 2 [[1, 2, 3, 4, 5 :: int], [6]] [] = Some [[1, 2], [3, 4], [5], [6]]"
  using C5_split_lossless [of 2 "[1, 2, 3, 4, 5 :: int]" "[[1, 2], [3, 4], [5]]"
      "[[1, 2, 3, 4, 5], [6]]" "[[1, 2], [3, 4], [5], [6]]"]
  by (simp add: split_chunk_closed pieces_def chop_Cons)


text \<open>
  Claim C10 (termination). Both loops of Phase A return, for every list of chunks and
  every \<open>min_chunk_s\<close>. Phase B returns for every list of chunks whenever
  \<open>max_ms = int(max_chunk_s * 1000)\<close> is at least 1, and so does the normalizer as a
  whole. The split loop advances by \<open>max_ms\<close> milliseconds: on a chunk of \<open>n\<close>
  milliseconds it runs \<open>\<lceil>n / max_ms\<rceil>\<close> times, one piece each; and \<open>max_ms\<close> is
  \<open>max_chunk_s * 1000\<close> with its fractional part cut off.
\<close>

theorem C10_termination:
  "(\<exists>r. merge_inner chunks min_chunk_s j merged = Some r)
   \<and> (\<exists>final_chunks. merge_loop chunks min_chunk_s 0 [] = Some final_chunks)
   \<and> (1 \<le> py_int (max_chunk_s * 1000) \<longrightarrow>
        (\<exists>processed. split_all (py_int (max_chunk_s * 1000)) cs [] = Some processed)
        \<and> (\<exists>out. normalize_chunks min_chunk_s max_chunk_s chunks = Some out)
        \<and> (\<exists>ps. split_loop c (py_int (max_chunk_s * 1000)) 0 [] = Some ps
                \<and> length ps = (length c + nat (py_int (max_chunk_s * 1000)) - 1)
                                 div nat (py_int (max_chunk_s * 1000)))
        \<and> of_int (py_int (max_chunk_s * 1000)) \<le> max_chunk_s * 1000
        \<and> max_chunk_s * 1000 < of_int (py_int (max_chunk_s * 1000)) + 1)"
proof (intro conjI impI)
  show "\<exists>r. merge_inner chunks min_chunk_s j merged = Some r"
  proof (cases "j \<le> length chunks")
    case True
    then show ?thesis by (simp add: merge_inner_closed)
  next
    case False
    then show ?thesis by (subst merge_inner.simps) simp
  qed
  show "\<exists>final_chunks. merge_loop chunks min_chunk_s 0 [] = Some final_chunks"
    by (simp add: merge_loop_all)
next
  assume M: "1 \<le> py_int (max_chunk_s * 1000)"
  show "\<exists>processed. split_all (py_int (max_chunk_s * 1000)) cs [] = Some processed"
    using M by (simp add: split_all_closed)
  show "\<exists>out. normalize_chunks min_chunk_s max_chunk_s chunks = Some out"
    using M by (simp add: normalize_chunks_def merge_loop_all split_all_closed)
  show "\<exists>ps. split_loop c (py_int (max_chunk_s * 1000)) 0 [] = Some ps
                \<and> length ps = (length c + nat (py_int (max_chunk_s * 1000)) - 1)
                                 div nat (py_int (max_chunk_s * 1000))"
    using M by (simp add: split_loop_closed length_chop)
  have "0 \<le> max_chunk_s * 1000" using M by (rule py_int_pos)
  then have fl: "py_int (max_chunk_s * 1000) = \<lfloor>max_chunk_s * 1000\<rfloor>"
    by (rule py_int_nonneg)
  show "of_int (py_int (max_chunk_s * 1000)) \<le> max_chunk_s * 1000"
    unfolding fl by (rule of_int_floor_le)
  show "max_chunk_s * 1000 < of_int (py_int (max_chunk_s * 1000)) + 1"
    unfolding fl using floor_correct[of "max_chunk_s * 1000"] by simp
qed

theorem C10_termination_witness:
  "1 \<le> py_int (8 * 1000)
   \<and> (\<exists>out. normalize_chunks 3 8 [replicate 17500 (0::int)] = Some out)
   \<and> (\<exists>ps. split_loop (replicate 17500 (0::int)) (py_int (8 * 1000)) 0 [] = Some ps
          \<and> length ps = 3)"
  using C10_termination [of "[replicate 17500 (0::int)]" 3 0 "[]" 8 "[]" "replicate 17500 0"]
  by (auto simp: py_int_def)

text \<open>
  Claim C2 (Phase B, split-oversized), as the code has it. The pieces are cut every
  \<open>max_ms\<close> milliseconds, where \<open>max_ms\<close> is the integer that \<open>int(max_chunk_s * 1000)\<close> gave.
  Whenever \<open>max_ms\<close> is at least 1: a chunk longer than \<open>max_ms\<close> milliseconds is cut into
  at least two consecutive pieces, each of exactly \<open>max_ms\<close> milliseconds except the last,
  which holds the remainder of more than 0 and at most \<open>max_ms\<close> milliseconds; a chunk of
  at most \<open>max_ms\<close> milliseconds is passed on unsplit; the output for a list of chunks is
  the pieces of each chunk, chunk after chunk. A chunk of 17.5 s with \<open>max_chunk_s = 8.0\<close>,
  where \<open>max_ms\<close> is 8000, gives pieces of 8.0 s, 8.0 s and 1.5 s.
\<close>

theorem C2_split_oversized:
  assumes "1 \<le> max_ms"
  shows "(max_ms < int (length c) \<longrightarrow>
            (\<exists>ps. split_chunk max_ms c [] = Some ps
                  \<and> concat ps = c \<and> 1 < length ps
                  \<and> (\<forall>p\<in>set (butlast ps). int (length p) = max_ms)
                  \<and> 0 < length (last ps)
                  \<and> int (length (last ps)) \<le> max_ms))
         \<and> (int (length c) \<le> max_ms \<longrightarrow> split_chunk max_ms c [] = Some [c])
         \<and> (\<exists>pss. list_all2 (\<lambda>c ps. split_chunk max_ms c [] = Some ps) cs pss
                  \<and> split_all max_ms cs [] = Some (concat pss))
         \<and> (length z = 17500 \<longrightarrow>
              split_chunk (py_int (8.0 * 1000)) z []
                = Some [take 8000 z, take 8000 (drop 8000 z), drop 16000 z]
              \<and> map dur_s [take 8000 z, take 8000 (drop 8000 z), drop 16000 z] = [8.0, 8.0, 1.5])"
proof -
  define M where "M = max_ms"
  have M: "1 \<le> M" using assms by (simp add: M_def)
  have over: "\<exists>ps. split_chunk M c [] = Some ps \<and> concat ps = c \<and> 1 < length ps
                  \<and> (\<forall>p\<in>set (butlast ps). int (length p) = M)
                  \<and> 0 < length (last ps) \<and> int (length (last ps)) \<le> M"
    if "M < int (length c)"
  proof -
    have gt: "\<not> int (length c) \<le> M" using that by simp
    then have ne: "c \<noteq> []" using M by auto
    define ps where "ps = chop (nat M) c"
    have pos: "0 < nat M" using M by simp
    have "split_chunk M c [] = Some ps"
      using M gt by (simp add: split_chunk_closed pieces_def ps_def)
    moreover have "concat ps = c" using pos by (simp add: ps_def concat_chop)
    moreover have "1 < length ps"
    proof -
      have "2 * nat M \<le> length c + nat M - 1" using gt M by linarith
      then have "2 \<le> (length c + nat M - 1) div nat M"
        using pos by (simp add: less_eq_div_iff_mult_less_eq)
      then show ?thesis using pos by (simp add: ps_def length_chop)
    qed
    moreover have "\<forall>p\<in>set (butlast ps). int (length p) = M"
    proof
      fix p assume "p \<in> set (butlast ps)"
      then have "length p = nat M" unfolding ps_def by (rule chop_butlast_full[OF pos])
      then show "int (length p) = M" using M by simp
    qed
    moreover have "0 < length (last ps) \<and> int (length (last ps)) \<le> M"
    proof -
      have "ps \<noteq> []" using pos ne by (simp add: ps_def chop_Cons)
      then have "last ps \<in> set (chop (nat M) c)" by (simp add: ps_def)
      from chop_piece_bounds[OF pos this] show ?thesis by linarith
    qed
    ultimately show ?thesis by blast
  qed
  have within: "split_chunk M c [] = Some [c]" if "int (length c) \<le> M"
    using that by (simp add: split_chunk_def)
  have groups: "\<exists>pss. list_all2 (\<lambda>c ps. split_chunk M c [] = Some ps) cs pss
                  \<and> split_all M cs [] = Some (concat pss)"
  proof -
    have "split_all M cs [] = Some (concat (map (pieces M) cs))"
      using M by (simp add: split_all_closed)
    moreover have "list_all2 (\<lambda>c ps. split_chunk M c [] = Some ps) cs (map (pieces M) cs)"
      using M by (simp add: list_all2_conv_all_nth split_chunk_closed)
    ultimately show ?thesis by blast
  qed
  have scenario: "split_chunk (py_int (8.0 * 1000)) z []
                = Some [take 8000 z, take 8000 (drop 8000 z), drop 16000 z]
              \<and> map dur_s [take 8000 z, take 8000 (drop 8000 z), drop 16000 z] = [8.0, 8.0, 1.5]"
    if len: "length z = 17500"
  proof -
    have eight: "py_int (8.0 * 1000) = 8000" by (simp add: py_int_def)
    have n1: "z \<noteq> []" using len by auto
    have n2: "drop 8000 z \<noteq> []" using len by simp
    have n3: "drop 8000 (drop 8000 z) \<noteq> []" using len by simp
    have n4: "drop 8000 (drop 8000 (drop 8000 z)) = []" using len by simp
    have "chop 8000 z = take 8000 z # chop 8000 (drop 8000 z)"
      using n1 by (simp add: chop_Cons)
    also have "chop 8000 (drop 8000 z)
                 = take 8000 (drop 8000 z) # chop 8000 (drop 8000 (drop 8000 z))"
      by (rule chop_Cons[OF _ n2]) simp
    also have "chop 8000 (drop 8000 (drop 8000 z))
                 = take 8000 (drop 8000 (drop 8000 z))
                     # chop 8000 (drop 8000 (drop 8000 (drop 8000 z)))"
      by (rule chop_Cons[OF _ n3]) simp
    finally have "chop 8000 z = [take 8000 z, take 8000 (drop 8000 z), drop 16000 z]"
      using len by (simp add: n4)
    then have "split_chunk (py_int (8.0 * 1000)) z []
                 = Some [take 8000 z, take 8000 (drop 8000 z), drop 16000 z]"
      unfolding eight using len by (simp add: split_chunk_closed pieces_def)
    moreover have "map dur_s [take 8000 z, take 8000 (drop 8000 z), drop 16000 z]
                     = [8.0, 8.0, 1.5]"
      using len by (simp add: dur_s_def)
    ultimately show ?thesis by blast
  qed
  show ?thesis using over within groups scenario unfolding M_def by blast
qed

theorem C2_split_oversized_witness:
  "split_chunk 8000 (replicate 17500 (0::int)) []
       = Some [replicate 8000 0, replicate 8000 0, replicate 1500 0]
   \<and> split_chunk 8000 (replicate 8000 (0::int)) [] = Some [replicate 8000 0]
   \<and> split_chunk (py_int (8.0 * 1000)) (replicate 17500 (0::int)) []
       = Some [replicate 8000 0, replicate 8000 0, replicate 1500 0]"
proof -
  have run: "split_chunk 8000 (replicate 17500 (0::int)) []
       = Some [replicate 8000 0, replicate 8000 0, replicate 1500 0]"
    by (simp add: split_chunk_closed pieces_def chop_Cons)
  from C2_split_oversized [of 8000 "replicate 8000 (0::int)" "[]" "replicate 17500 (0::int)"]
  show ?thesis using run by simp
qed

text \<open>
  Claim C2 as the specification states it fails in two ways. With \<open>max_chunk_s = 2.0005\<close>
  the step is \<open>int(2000.5) = 2000\<close> milliseconds: a chunk of 4.001 s, which is longer than
  \<open>max_chunk_s\<close>, is cut into pieces of 2.0 s, 2.0 s and 0.001 s, none of them of
  \<open>max_chunk_s\<close>. With \<open>max_chunk_s = 0\<close> a chunk of one millisecond is longer than
  \<open>max_chunk_s\<close>, the step is 0 and the split loop never returns.
\<close>

theorem C2_split_oversized_counterexample:
  "2.0005 < dur_s (replicate 4001 (0::int))
   \<and> split_chunk (py_int (2.0005 * 1000)) (replicate 4001 (0::int)) []
       = Some [replicate 2000 0, replicate 2000 0, replicate 1 0]
   \<and> dur_s (replicate 2000 (0::int)) \<noteq> 2.0005
   \<and> 0 < dur_s [0::int]
   \<and> split_chunk (py_int (0 * 1000)) [0::int] [] = None"
proof -
  have fl: "py_int (2.0005 * 1000) = 2000"
    by (simp add: py_int_def floor_eq_iff)
  have "split_chunk 2000 (replicate 4001 (0::int)) []
       = Some [replicate 2000 0, replicate 2000 0, replicate 1 0]"
    by (simp add: split_chunk_closed pieces_def chop_Cons)
  moreover have "split_chunk (py_int (0 * 1000)) [0::int] [] = None"
    by (rule split_chunk_diverges) (simp_all add: py_int_def)
  ultimately show ?thesis unfolding fl by (simp add: dur_s_def)
qed






text \<open>
  Claim C8 (empty input), as the code has it. The function has no check for an empty
  waveform and signals no error of its own. Every slice of a zero-length waveform is
  empty; the empty segments are filtered out, both phases run on no chunks, and the
  function returns an empty list of exported chunks.
\<close>

theorem C8_empty_input_returns:
  assumes "\<forall>c\<in>set raw_chunks. c = []"
  shows "split_by_silence_and_chunk raw_chunks min_chunk_s max_chunk_s = Some []"
proof -
  have "filter (\<lambda>c. length c > 0) raw_chunks = []" using assms by (induction raw_chunks) simp_all
  then show ?thesis
    by (simp add: split_by_silence_and_chunk_def export_chunks_def normalize_chunks_def merge_loop_all)
qed

theorem C8_empty_input_returns_witness:
  "list_all (\<lambda>c. c = []) [[], [] :: int list]
   \<and> split_by_silence_and_chunk [[], [] :: int list] 3 8 = Some []"
  using C8_empty_input_returns [of "[[], [] :: int list]" 3 8]
  by simp

text \<open>
  Claim C8 as the specification states it fails: for a zero-length waveform, whether the
  silence splitter returns one empty segment or none, the function returns the empty list
  with the default configuration and signals no error.
\<close>

theorem C8_empty_input_counterexample:
  "split_by_silence_and_chunk [[] :: int list] 3.0 8.0 = Some []
   \<and> split_by_silence_and_chunk ([] :: int list list) 3.0 8.0 = Some []"
  by (simp add: split_by_silence_and_chunk_def export_chunks_def normalize_chunks_def merge_loop_all)

text \<open>
  Claim C9 (per-source failure isolation). When the processing of one URL raises an
  exception, in the download, the conversion or the segmentation, the loop prints the
  error for that URL and goes on with the remaining URLs. So for every CSV with a
  \<open>url\<close> column, \<open>process_csv\<close> returns normally whichever URLs fail, and what it has
  printed is, for each distinct URL of the column in order of first appearance, the
  \<open>Processing\<close> line of that URL followed by its outcome: the export count, or the error
  for that URL.
\<close>

theorem C9_failure_isolation:
  "(process_url E tmp_dir out_root url w = (Inl e, w1) \<longrightarrow>
      process_urls E tmp_dir out_root (url # urls) w printed
        = process_urls E tmp_dir out_root urls w1 (printed @ [Processing url, ErrorFor url e]))
   \<and> (map_of df ''url'' = Some col \<longrightarrow>
        (\<exists>outcomes w'.
           process_csv E df tmp_dir out_root w
             = (Inr (concat (map2 (\<lambda>u l. [Processing u, l]) (unique (dropna col)) outcomes)), w')
           \<and> list_all2 outcome_of (unique (dropna col)) outcomes))"
proof (intro conjI impI)
  assume "process_url E tmp_dir out_root url w = (Inl e, w1)"
  then show "process_urls E tmp_dir out_root (url # urls) w printed
        = process_urls E tmp_dir out_root urls w1 (printed @ [Processing url, ErrorFor url e])"
    by simp
next
  assume col: "map_of df ''url'' = Some col"
  from process_urls_log[of E tmp_dir out_root "unique (dropna col)" w "[]"]
  obtain outcomes w' where
    "process_urls E tmp_dir out_root (unique (dropna col)) w []
       = (concat (map2 (\<lambda>u l. [Processing u, l]) (unique (dropna col)) outcomes), w')"
    "list_all2 outcome_of (unique (dropna col)) outcomes"
    by auto
  then show "\<exists>outcomes w'.
           process_csv E df tmp_dir out_root w
             = (Inr (concat (map2 (\<lambda>u l. [Processing u, l]) (unique (dropna col)) outcomes)), w')
           \<and> list_all2 outcome_of (unique (dropna col)) outcomes"
    using col by (auto simp: process_csv_def)
qed

theorem C9_failure_isolation_witness:
  "process_csv
     \<lparr>download_audio = (\<lambda>url dir w. if url = ''bad'' then (Inl (OtherException ''no video''), w)
                                     else (Inr (dir @ ''/'' @ url @ ''.m4a''), w)),
      path_exists = (\<lambda>p w. False),
      convert_to_wav = (\<lambda>src dst w. (Inr dst, w)),
      segment = (\<lambda>wav dir w. (Inr [dir @ ''_chunk001.wav''], w)),
      join = (\<lambda>a b. a @ ''/'' @ b),
      splitext_root = (\<lambda>p. take (length p - 4) p),
      stem = (\<lambda>p. ''clip'')\<rparr>
     [(''url'', [Some ''bad'', None, Some ''ok'', Some ''bad''])] ''tmp'' ''out'' ()
   = (Inr [Processing ''bad'', ErrorFor ''bad'' (OtherException ''no video''),
           Processing ''ok'', Exported 1 ''out/clip''], ())"
  using C9_failure_isolation
    [of "\<lparr>download_audio = (\<lambda>url dir w. if url = ''bad'' then (Inl (OtherException ''no video''), w)
                                     else (Inr (dir @ ''/'' @ url @ ''.m4a''), w)),
      path_exists = (\<lambda>p w. False),
      convert_to_wav = (\<lambda>src dst w. (Inr dst, w)),
      segment = (\<lambda>wav dir w. (Inr [dir @ ''_chunk001.wav''], w)),
      join = (\<lambda>a b. a @ ''/'' @ b),
      splitext_root = (\<lambda>p. take (length p - 4) p),
      stem = (\<lambda>p. ''clip'')\<rparr>"
     "''tmp''" "''out''" "''bad''" "()" "OtherException ''no video''" "()" "[''ok'']" "[]"
     "[(''url'', [Some ''bad'', None, Some ''ok'', Some ''bad''])]"
     "[Some ''bad'', None, Some ''ok'', Some ''bad'']"]
  by (simp add: process_csv_def process_url_def dropna_def)

end
